theory Spec2Isabelle
  imports Main
begin

section \<open>Bytes, text and the conversions of Python the client relies on\<close>

text \<open>
  The client (\<^verbatim>\<open>redis-client.py\<close>) handles two kinds of sequences: \<^verbatim>\<open>bytes\<close>
  (what travels on the socket) and \<^verbatim>\<open>str\<close> (what the caller passes and receives).
  A byte is a \<^typ>\<open>char\<close>; a \<^verbatim>\<open>str\<close> is the list of its code points, so that
  \<^verbatim>\<open>len\<close> of a \<^verbatim>\<open>str\<close> counts code points and \<^verbatim>\<open>len\<close> of \<^verbatim>\<open>bytes\<close> counts bytes.
\<close>

type_synonym bytes = "char list"
type_synonym str = "nat list"

abbreviation CR :: char where "CR \<equiv> CHR 0x0D"
abbreviation LF :: char where "LF \<equiv> CHR 0x0A"

definition crlf :: bytes where
  "crlf = [CR, LF]"

text \<open>A source literal such as \<^verbatim>\<open>"GET "\<close>, as a \<^verbatim>\<open>str\<close>.\<close>

definition asc :: "string \<Rightarrow> str" where
  "asc s = map of_char s"

datatype error =
    Exception str
  | ValueError
  | UnicodeDecodeError
  | UnicodeEncodeError

text \<open>The two kinds of value \<^verbatim>\<open>_reply\<close> returns: an \<^verbatim>\<open>int\<close> or a \<^verbatim>\<open>str\<close>.\<close>

datatype pyvalue = PyInt int | PyStr str

subsection \<open>\<^verbatim>\<open>str.encode()\<close> and \<^verbatim>\<open>bytes.decode()\<close>: strict UTF-8\<close>

text \<open>
  Both raise on failure (\<^verbatim>\<open>UnicodeEncodeError\<close>, \<^verbatim>\<open>UnicodeDecodeError\<close>), here \<open>None\<close>.
  A surrogate code point cannot be encoded; a number above \<^verbatim>\<open>0x10FFFF\<close> is no code point
  of a \<^verbatim>\<open>str\<close> and is refused likewise. Decoding refuses overlong forms, surrogates and
  values above \<^verbatim>\<open>0x10FFFF\<close>.
\<close>

definition encode_cp :: "nat \<Rightarrow> bytes option" where
  "encode_cp c =
     (if c < 0x80 then Some [char_of c]
      else if c < 0x800 then Some [char_of (0xC0 + c div 64), char_of (0x80 + c mod 64)]
      else if 0xD800 \<le> c \<and> c < 0xE000 then None
      else if c < 0x10000 then
        Some [char_of (0xE0 + c div 4096), char_of (0x80 + c div 64 mod 64),
              char_of (0x80 + c mod 64)]
      else if c < 0x110000 then
        Some [char_of (0xF0 + c div 262144), char_of (0x80 + c div 4096 mod 64),
              char_of (0x80 + c div 64 mod 64), char_of (0x80 + c mod 64)]
      else None)"

fun encode :: "str \<Rightarrow> bytes option" where
  "encode [] = Some []"
| "encode (c # cs) =
     (case encode_cp c of
        None \<Rightarrow> None
      | Some bs \<Rightarrow> (case encode cs of None \<Rightarrow> None | Some rest \<Rightarrow> Some (bs @ rest)))"

definition cont :: "char \<Rightarrow> bool" where
  "cont b = (0x80 \<le> (of_char b :: nat) \<and> (of_char b :: nat) < 0xC0)"

definition low6 :: "char \<Rightarrow> nat" where
  "low6 b = of_char b - 0x80"

fun decode_cp :: "bytes \<Rightarrow> (nat \<times> bytes) option" where
  "decode_cp [] = None"
| "decode_cp (b # bs) =
     (let n = (of_char b :: nat) in
      if n < 0x80 then Some (n, bs)
      else if n < 0xC2 then None
      else if n < 0xE0 then
        (case bs of
           c1 # r \<Rightarrow> if cont c1 then Some ((n - 0xC0) * 64 + low6 c1, r) else None
         | _ \<Rightarrow> None)
      else if n < 0xF0 then
        (case bs of
           c1 # c2 # r \<Rightarrow>
             (let cp = (n - 0xE0) * 4096 + low6 c1 * 64 + low6 c2 in
              if cont c1 \<and> cont c2 \<and> 0x800 \<le> cp \<and> \<not> (0xD800 \<le> cp \<and> cp < 0xE000)
              then Some (cp, r) else None)
         | _ \<Rightarrow> None)
      else if n < 0xF5 then
        (case bs of
           c1 # c2 # c3 # r \<Rightarrow>
             (let cp = (n - 0xF0) * 262144 + low6 c1 * 4096 + low6 c2 * 64 + low6 c3 in
              if cont c1 \<and> cont c2 \<and> cont c3 \<and> 0x10000 \<le> cp \<and> cp < 0x110000
              then Some (cp, r) else None)
         | _ \<Rightarrow> None)
      else None)"

function decode :: "bytes \<Rightarrow> str option" where
  "decode bs =
     (if bs = [] then Some []
      else (case decode_cp bs of
              None \<Rightarrow> None
            | Some (c, r) \<Rightarrow> (case decode r of None \<Rightarrow> None | Some t \<Rightarrow> Some (c # t))))"
  by pat_completeness auto
termination
proof (relation "measure length")
  show "wf (measure length)" by simp
next
  fix bs :: bytes and x2 c rs
  assume "decode_cp bs = Some x2" "(c, rs) = x2"
  then have "length rs < length bs"
    by (cases bs) (auto simp: Let_def split: if_splits list.splits)
  then show "(rs, bs) \<in> measure length" by simp
qed

declare decode.simps [simp del]

subsection \<open>\<^verbatim>\<open>str(n)\<close> in an f-string, and \<^verbatim>\<open>int(...)\<close>\<close>

fun dec_nat :: "nat \<Rightarrow> str" where
  "dec_nat n = (if n < 10 then [48 + n] else dec_nat (n div 10) @ [48 + n mod 10])"

declare dec_nat.simps [simp del]

definition dec_int :: "int \<Rightarrow> str" where
  "dec_int i = (if i < 0 then 45 # dec_nat (nat (- i)) else dec_nat (nat i))"

definition is_digit :: "nat \<Rightarrow> bool" where
  "is_digit c = (48 \<le> c \<and> c \<le> 57)"

text \<open>
  \<^verbatim>\<open>int(s)\<close> in base 10: surrounding whitespace is stripped, one sign is allowed, then
  decimal digits, with single underscores allowed between digits; anything else raises
  \<^verbatim>\<open>ValueError\<close> (here \<open>None\<close>). For \<^verbatim>\<open>bytes\<close> the whitespace is the ASCII one; for
  \<^verbatim>\<open>str\<close> it is what \<^verbatim>\<open>str.isspace\<close> accepts. Digits are the ASCII digits: Python's
  \<^verbatim>\<open>int\<close> of a \<^verbatim>\<open>str\<close> also reads the decimal digits of other scripts, which are not
  modelled (such text is reported as \<^verbatim>\<open>ValueError\<close> here).
\<close>

definition is_space_bytes :: "nat \<Rightarrow> bool" where
  "is_space_bytes c = (c = 32 \<or> (9 \<le> c \<and> c \<le> 13))"

definition is_space_str :: "nat \<Rightarrow> bool" where
  "is_space_str c =
     (c = 32 \<or> (9 \<le> c \<and> c \<le> 13) \<or> (28 \<le> c \<and> c \<le> 31) \<or> c = 0x85 \<or> c = 0xA0
      \<or> c = 0x1680 \<or> (0x2000 \<le> c \<and> c \<le> 0x200A) \<or> c = 0x2028 \<or> c = 0x2029
      \<or> c = 0x202F \<or> c = 0x205F \<or> c = 0x3000)"

definition strip :: "(nat \<Rightarrow> bool) \<Rightarrow> str \<Rightarrow> str" where
  "strip sp s = rev (dropWhile sp (rev (dropWhile sp s)))"

fun digit_run :: "nat \<Rightarrow> str \<Rightarrow> nat option" where
  "digit_run acc [] = Some acc"
| "digit_run acc (c # cs) =
     (if is_digit c then digit_run (10 * acc + (c - 48)) cs
      else if c = 95 then
        (case cs of
           [] \<Rightarrow> None
         | d # ds \<Rightarrow> if is_digit d then digit_run (10 * acc + (d - 48)) ds else None)
      else None)"

definition py_digits :: "str \<Rightarrow> nat option" where
  "py_digits s =
     (case s of [] \<Rightarrow> None | c # cs \<Rightarrow> if is_digit c then digit_run (c - 48) cs else None)"

definition py_int :: "(nat \<Rightarrow> bool) \<Rightarrow> str \<Rightarrow> int option" where
  "py_int sp s =
     (case strip sp s of
        [] \<Rightarrow> None
      | c # cs \<Rightarrow>
          if c = 45 then map_option (\<lambda>n. - int n) (py_digits cs)
          else if c = 43 then map_option int (py_digits cs)
          else map_option int (py_digits (c # cs)))"

definition int_of_str :: "str \<Rightarrow> int option" where
  "int_of_str s = py_int is_space_str s"

definition int_of_bytes :: "bytes \<Rightarrow> int option" where
  "int_of_bytes bs = py_int is_space_bytes (map of_char bs)"

subsection \<open>\<^verbatim>\<open>repr\<close> of a \<^verbatim>\<open>bytes\<close> value, as an f-string prints it\<close>

definition hex_digit :: "nat \<Rightarrow> nat" where
  "hex_digit d = (if d < 10 then 48 + d else 87 + d)"

definition repr_byte :: "char \<Rightarrow> char \<Rightarrow> str" where
  "repr_byte q b =
     (let n = (of_char b :: nat) in
      if b = q \<or> b = CHR 0x5C then [0x5C, n]
      else if b = CHR 0x09 then [0x5C, 116]
      else if b = LF then [0x5C, 110]
      else if b = CR then [0x5C, 114]
      else if n < 0x20 \<or> 0x7F \<le> n then [0x5C, 120, hex_digit (n div 16), hex_digit (n mod 16)]
      else [n])"

definition repr_bytes :: "bytes \<Rightarrow> str" where
  "repr_bytes bs =
     (let q = (if CHR 0x27 \<in> set bs \<and> CHR 0x22 \<notin> set bs then CHR 0x22 else CHR 0x27)
      in [98, of_char q] @ concat (map (repr_byte q) bs) @ [of_char q])"

section \<open>The connection: a reader and a writer\<close>

text \<open>
  \<^verbatim>\<open>self.r\<close> is an \<^verbatim>\<open>asyncio.StreamReader\<close>. What it will deliver is a list of
  fragments in arrival order, after which the peer has closed the stream.
  \<^verbatim>\<open>read(n)\<close> returns at most \<open>n\<close> bytes of what has arrived (a short read when the
  fragment is shorter than \<open>n\<close>), and \<^verbatim>\<open>b""\<close> once the stream is closed and drained.
\<close>

type_synonym reader = "bytes list"

fun read :: "nat \<Rightarrow> reader \<Rightarrow> bytes \<times> reader" where
  "read n [] = ([], [])"
| "read n ([] # cs) = read n cs"
| "read n ((b # bs) # cs) =
     (if n = 0 then ([], (b # bs) # cs)
      else if length (b # bs) \<le> n then (b # bs, cs)
      else (take n (b # bs), drop n (b # bs) # cs))"

text \<open>
  \<^verbatim>\<open>self.w\<close> is an \<^verbatim>\<open>asyncio.StreamWriter\<close>: the bytes handed to the transport so far.
  \<^verbatim>\<open>drain()\<close> waits for the transport and changes no byte.
\<close>

record client =
  r :: reader
  w :: bytes

definition write_bytes :: "bytes \<Rightarrow> client \<Rightarrow> client" where
  "write_bytes bs c = c\<lparr>w := w c @ bs\<rparr>"

definition drain :: "client \<Rightarrow> client" where
  "drain c = c"

section \<open>The reply decoder \<^verbatim>\<open>Client._reply\<close>\<close>

text \<open>
  The loop \<^verbatim>\<open>while ch != b"\n": ch = await self.r.read(1); result += ch\<close>, which the
  source repeats in each of the four tagged branches. It does not return on a stream
  that is closed before a line feed: \<^verbatim>\<open>read(1)\<close> then yields \<^verbatim>\<open>b""\<close> for ever.
  Not returning is the value \<open>None\<close>.
\<close>

partial_function (option) line_loop :: "reader \<Rightarrow> bytes \<Rightarrow> (bytes \<times> reader) option" where
  "line_loop rd result =
     (case read 1 rd of
        (ch, rd') \<Rightarrow>
          if ch \<noteq> [LF] then line_loop rd' (result @ ch) else Some (result @ ch, rd'))"

declare line_loop.simps [code]

text \<open>
  The loop \<^verbatim>\<open>while len(result) < data_length: result += await
  self.r.read(data_length - len(result))\<close> of the bulk-string branch.
\<close>

partial_function (option) data_loop :: "int \<Rightarrow> reader \<Rightarrow> bytes \<Rightarrow> (bytes \<times> reader) option" where
  "data_loop data_length rd result =
     (if int (length result) < data_length then
        (case read (nat (data_length - int (length result))) rd of
           (d, rd') \<Rightarrow> data_loop data_length rd' (result @ d))
      else Some (result, rd))"

declare data_loop.simps [code]

text \<open>\<^verbatim>\<open>result[:-1]\<close> is \<^term>\<open>butlast\<close>; \<^verbatim>\<open>result[:-2]\<close> drops the last two bytes.\<close>

definition drop_last2 :: "bytes \<Rightarrow> bytes" where
  "drop_last2 bs = take (length bs - 2) bs"

type_synonym outcome = "error + pyvalue"

definition reply :: "reader \<Rightarrow> (outcome \<times> reader) option" where
  "reply rd0 =
     (case read 1 rd0 of
        (tag, rd1) \<Rightarrow>
          if tag = '':'' then
            (case line_loop rd1 [] of
               None \<Rightarrow> None
             | Some (result, rd2) \<Rightarrow>
                 (case decode (butlast result) of
                    None \<Rightarrow> Some (Inl UnicodeDecodeError, rd2)
                  | Some t \<Rightarrow>
                      (case int_of_str t of
                         None \<Rightarrow> Some (Inl ValueError, rd2)
                       | Some i \<Rightarrow> Some (Inr (PyInt i), rd2))))
          else if tag = ''-'' then
            (case line_loop rd1 [] of
               None \<Rightarrow> None
             | Some (result, rd2) \<Rightarrow>
                 (case decode (butlast result) of
                    None \<Rightarrow> Some (Inl UnicodeDecodeError, rd2)
                  | Some t \<Rightarrow> Some (Inl (Exception t), rd2)))
          else if tag = ''$'' then
            (case line_loop rd1 [] of
               None \<Rightarrow> None
             | Some (len, rd2) \<Rightarrow>
                 (case int_of_bytes (butlast len) of
                    None \<Rightarrow> Some (Inl ValueError, rd2)
                  | Some n \<Rightarrow>
                      (case data_loop (n + 2) rd2 [] of
                         None \<Rightarrow> None
                       | Some (result, rd3) \<Rightarrow>
                           (case decode (drop_last2 result) of
                              None \<Rightarrow> Some (Inl UnicodeDecodeError, rd3)
                            | Some t \<Rightarrow> Some (Inr (PyStr t), rd3)))))
          else if tag = ''+'' then
            (case line_loop rd1 [] of
               None \<Rightarrow> None
             | Some (result, rd2) \<Rightarrow>
                 (case decode (butlast result) of
                    None \<Rightarrow> Some (Inl UnicodeDecodeError, rd2)
                  | Some t \<Rightarrow> Some (Inr (PyStr t), rd2)))
          else
            (case read 100 rd1 of
               (msg, rd2) \<Rightarrow>
                 (case decode msg of
                    None \<Rightarrow> Some (Inl UnicodeDecodeError, rd2)
                  | Some m \<Rightarrow>
                      Some (Inl (Exception (asc ''Unkown tag: '' @ repr_bytes tag
                                            @ asc '', msg: '' @ m)), rd2))))"

section \<open>The command methods\<close>

text \<open>
  Each method formats a \<^verbatim>\<open>str\<close>, encodes it, writes it, drains and awaits \<^verbatim>\<open>_reply\<close>.
  An exception leaves the client as it was when it was raised.
\<close>

definition transmit :: "str \<Rightarrow> client \<Rightarrow> (outcome \<times> client) option" where
  "transmit text c =
     (case encode text of
        None \<Rightarrow> Some (Inl UnicodeEncodeError, c)
      | Some bs \<Rightarrow>
          (let c1 = drain (write_bytes bs c) in
           case reply (r c1) of
             None \<Rightarrow> None
           | Some (res, rd) \<Rightarrow> Some (res, c1\<lparr>r := rd\<rparr>)))"

definition get :: "str \<Rightarrow> client \<Rightarrow> (outcome \<times> client) option" where
  "get key c = transmit (asc ''GET '' @ key @ map of_char crlf) c"

definition set_cmd :: "str \<Rightarrow> str \<Rightarrow> client \<Rightarrow> (outcome \<times> client) option" where
  "set_cmd key val c = transmit (asc ''SET '' @ key @ asc '' '' @ val @ map of_char crlf) c"

definition incr :: "str \<Rightarrow> client \<Rightarrow> (outcome \<times> client) option" where
  "incr key c = transmit (asc ''INCR '' @ key @ map of_char crlf) c"

definition resp_args :: "str list \<Rightarrow> str" where
  "resp_args args =
     concat (map (\<lambda>arg. asc ''$'' @ dec_nat (length arg) @ map of_char crlf
                          @ arg @ map of_char crlf) args)"

definition send :: "str list \<Rightarrow> client \<Rightarrow> (outcome \<times> client) option" where
  "send args c =
     transmit (asc ''*'' @ dec_nat (length args) @ map of_char crlf @ resp_args args) c"

text \<open>
  What each method comes to once its text is encoded to \<open>bs\<close>: the bytes are appended to
  what was written, and the outcome and the new reader are those of \<^verbatim>\<open>_reply\<close>.
\<close>

abbreviation sent :: "bytes \<Rightarrow> client \<Rightarrow> (outcome \<times> client) option" where
  "sent bs c \<equiv> map_option (\<lambda>(res, rd). (res, c\<lparr>r := rd, w := w c @ bs\<rparr>)) (reply (r c))"

text \<open>
  The bytes \<^verbatim>\<open>send\<close> writes for one argument \<open>arg\<close> whose encoding is \<open>ab\<close>: the length
  prefix is \<^verbatim>\<open>len(arg)\<close>, the number of characters of the \<^verbatim>\<open>str\<close>.
\<close>

definition bulk_arg :: "str \<Rightarrow> bytes \<Rightarrow> bytes" where
  "bulk_arg arg ab = ''$'' @ map char_of (dec_nat (length arg)) @ crlf @ ab @ crlf"


section \<open>The two read loops\<close>

lemma read_concat: "read n rd = (d, rd') \<Longrightarrow> concat rd = d @ concat rd'"
  by (induction n rd rule: read.induct) (auto split: if_splits)

lemma read_length: "read n rd = (d, rd') \<Longrightarrow> length d \<le> n"
  by (induction n rd rule: read.induct) (auto split: if_splits)

lemma line_loop_skip: "line_loop ([] # cs) acc = line_loop cs acc"
  by (subst line_loop.simps, subst (2) line_loop.simps) simp

lemma line_loop_byte:
  "line_loop ((b # bs) # cs) acc =
     (if b = LF then Some (acc @ [LF], if bs = [] then cs else bs # cs)
      else line_loop (bs # cs) (acc @ [b]))"
  by (subst line_loop.simps) (auto simp: line_loop_skip)

lemma line_loop_returns:
  "concat rd = line @ LF # rest \<Longrightarrow> LF \<notin> set line \<Longrightarrow>
   \<exists>rd'. line_loop rd acc = Some (acc @ line @ [LF], rd') \<and> concat rd' = rest"
proof (induction rd arbitrary: line acc)
  case Nil
  then show ?case by simp
next
  case (Cons c cs)
  from Cons.prems show ?case
  proof (induction c arbitrary: line acc)
    case Nil
    then show ?case using Cons.IH by (simp add: line_loop_skip)
  next
    case (Cons b bs)
    show ?case
    proof (cases line)
      case Nil
      with Cons.prems show ?thesis by (auto simp: line_loop_byte)
    next
      case (Cons l ls)
      with Cons.prems Cons.IH [of ls "acc @ [b]"] show ?thesis
        by (auto simp: line_loop_byte)
    qed
  qed
qed

lemma line_loop_Some_LF:
  assumes "line_loop rd acc = Some y"
  shows "LF \<in> set (concat rd)"
proof (rule line_loop.raw_induct [where P = "\<lambda>rd acc y. LF \<in> set (concat rd)", OF _ assms])
  fix f :: "reader \<Rightarrow> bytes \<Rightarrow> (bytes \<times> reader) option" and rd acc y
  assume IH: "\<And>rd acc y. f rd acc = Some y \<Longrightarrow> LF \<in> set (concat rd)"
  assume eq: "(case read 1 rd of
                 (ch, rd') \<Rightarrow> if ch \<noteq> [LF] then f rd' (acc @ ch) else Some (acc @ ch, rd'))
              = Some y"
  obtain ch rd' where rd: "read 1 rd = (ch, rd')" by (cases "read 1 rd")
  show "LF \<in> set (concat rd)"
  proof (cases "ch = [LF]")
    case True
    with read_concat [OF rd] show ?thesis by simp
  next
    case False
    with eq rd have "f rd' (acc @ ch) = Some y" by simp
    then have "LF \<in> set (concat rd')" by (rule IH)
    with read_concat [OF rd] show ?thesis by simp
  qed
qed

lemma line_loop_diverges: "LF \<notin> set (concat rd) \<Longrightarrow> line_loop rd acc = None"
  using line_loop_Some_LF [of rd acc] by (cases "line_loop rd acc") auto

lemma data_loop_done: "data_length \<le> int (length result) \<Longrightarrow> data_loop data_length rd result = Some (result, rd)"
  by (subst data_loop.simps) simp

lemma data_loop_returns:
  "data_length \<le> int (length result) + int (length (concat rd)) \<Longrightarrow>
   \<exists>rd'. data_loop data_length rd result
            = Some (result @ take (nat (data_length - int (length result))) (concat rd), rd')
        \<and> concat rd' = drop (nat (data_length - int (length result))) (concat rd)"
proof (induction rd arbitrary: result)
  case Nil
  then show ?case by (simp add: data_loop_done)
next
  case (Cons c cs)
  show ?case
  proof (cases "data_length \<le> int (length result)")
    case True
    then show ?thesis by (simp add: data_loop_done)
  next
    case active: False
    show ?thesis
    proof (cases c)
      case Nil
      have "data_loop data_length ([] # cs) result = data_loop data_length cs result"
        using active by (subst data_loop.simps, subst (2) data_loop.simps) simp
      with Nil Cons.IH [of result] Cons.prems show ?thesis by simp
    next
      case (Cons b bs)
      let ?k = "nat (data_length - int (length result))"
      show ?thesis
      proof (cases "length c \<le> ?k")
        case True
        have "data_loop data_length (c # cs) result = data_loop data_length cs (result @ c)"
          using active True Cons by (subst data_loop.simps) auto
        moreover have "data_length \<le> int (length (result @ c)) + int (length (concat cs))"
          using Cons.prems by simp
        moreover have "nat (data_length - int (length (result @ c))) = ?k - length c"
          by simp
        ultimately show ?thesis using Cons.IH [of "result @ c"] True by auto
      next
        case False
        have "data_loop data_length (c # cs) result
                = data_loop data_length (drop ?k c # cs) (result @ take ?k c)"
          using active False Cons by (subst data_loop.simps) auto
        also have "\<dots> = Some (result @ take ?k c, drop ?k c # cs)"
          using False active by (intro data_loop_done) auto
        finally show ?thesis using False by auto
      qed
    qed
  qed
qed

lemma data_loop_Some_enough:
  assumes "data_loop data_length rd result = Some y"
  shows "data_length \<le> int (length result) + int (length (concat rd))"
proof (rule data_loop.raw_induct
    [where P = "\<lambda>n rd result y. n \<le> int (length result) + int (length (concat rd))",
      OF _ assms])
  fix f :: "int \<Rightarrow> reader \<Rightarrow> bytes \<Rightarrow> (bytes \<times> reader) option" and n rd result y
  assume IH: "\<And>n rd result y. f n rd result = Some y
                 \<Longrightarrow> n \<le> int (length result) + int (length (concat rd))"
  assume eq: "(if int (length result) < n
               then case read (nat (n - int (length result))) rd of
                      (d, rd') \<Rightarrow> f n rd' (result @ d)
               else Some (result, rd)) = Some y"
  show "n \<le> int (length result) + int (length (concat rd))"
  proof (cases "int (length result) < n")
    case True
    obtain d rd' where rd: "read (nat (n - int (length result))) rd = (d, rd')"
      by (cases "read (nat (n - int (length result))) rd")
    with eq True have "f n rd' (result @ d) = Some y" by simp
    then have "n \<le> int (length (result @ d)) + int (length (concat rd'))" by (rule IH)
    with read_concat [OF rd] show ?thesis by simp
  next
    case False
    then show ?thesis by simp
  qed
qed

lemma data_loop_diverges:
  "int (length result) + int (length (concat rd)) < data_length
   \<Longrightarrow> data_loop data_length rd result = None"
  using data_loop_Some_enough [of data_length rd result]
  by (cases "data_loop data_length rd result") auto


section \<open>Facts about the conversions\<close>

lemma decode_Nil: "decode [] = Some []"
  by (simp add: decode.simps)

lemma decode_ascii_Cons:
  "(of_char b :: nat) < 0x80 \<Longrightarrow>
   decode (b # bs) = (case decode bs of None \<Rightarrow> None | Some t \<Rightarrow> Some (of_char b # t))"
  by (subst decode.simps) simp

lemma decode_ascii: "\<forall>c\<in>set s. c < 0x80 \<Longrightarrow> decode (map char_of s) = Some s"
  by (induction s) (simp_all add: decode_Nil decode_ascii_Cons)

lemma encode_append:
  "encode (s @ t) =
     (case encode s of
        None \<Rightarrow> None
      | Some a \<Rightarrow> (case encode t of None \<Rightarrow> None | Some b \<Rightarrow> Some (a @ b)))"
  by (induction s) (auto split: option.splits)

lemma encode_ascii: "\<forall>c\<in>set s. c < 0x80 \<Longrightarrow> encode s = Some (map char_of s)"
  by (induction s) (simp_all add: encode_cp_def)

lemma mix64:
  fixes x d :: nat
  assumes "d < 64"
  shows "(x * 64 + d) div 64 = x" "(x * 64 + d) mod 64 = d"
  using assms by simp_all

lemma mix3:
  fixes a d1 d2 :: nat
  assumes "d1 < 64" "d2 < 64"
  shows "(a * 4096 + d1 * 64 + d2) div 4096 = a"
    and "(a * 4096 + d1 * 64 + d2) div 64 mod 64 = d1"
    and "(a * 4096 + d1 * 64 + d2) mod 64 = d2"
proof -
  have e: "a * 4096 + d1 * 64 + d2 = (a * 64 + d1) * 64 + d2" by simp
  have q: "(a * 4096 + d1 * 64 + d2) div 64 = a * 64 + d1"
    unfolding e using assms(2) by (rule mix64)
  show "(a * 4096 + d1 * 64 + d2) mod 64 = d2"
    unfolding e using assms(2) by (rule mix64)
  show "(a * 4096 + d1 * 64 + d2) div 64 mod 64 = d1"
    unfolding q using assms(1) by (rule mix64)
  have "(a * 4096 + d1 * 64 + d2) div 4096 = (a * 4096 + d1 * 64 + d2) div 64 div 64"
    by (simp add: div_mult2_eq [symmetric])
  also have "\<dots> = a" unfolding q using assms(1) by (rule mix64)
  finally show "(a * 4096 + d1 * 64 + d2) div 4096 = a" .
qed

lemma mix4:
  fixes a d1 d2 d3 :: nat
  assumes "d1 < 64" "d2 < 64" "d3 < 64"
  shows "(a * 262144 + d1 * 4096 + d2 * 64 + d3) div 262144 = a"
    and "(a * 262144 + d1 * 4096 + d2 * 64 + d3) div 4096 mod 64 = d1"
    and "(a * 262144 + d1 * 4096 + d2 * 64 + d3) div 64 mod 64 = d2"
    and "(a * 262144 + d1 * 4096 + d2 * 64 + d3) mod 64 = d3"
proof -
  let ?cp = "a * 262144 + d1 * 4096 + d2 * 64 + d3"
  have e: "?cp = ((a * 64 + d1) * 4096 + d2 * 64 + d3)" by simp
  show "?cp mod 64 = d3" unfolding e using assms(2,3) by (rule mix3)
  show "?cp div 64 mod 64 = d2" unfolding e using assms(2,3) by (rule mix3)
  have q: "?cp div 4096 = a * 64 + d1" unfolding e using assms(2,3) by (rule mix3)
  show "?cp div 4096 mod 64 = d1" unfolding q using assms(1) by (rule mix64)
  have "?cp div 262144 = ?cp div 4096 div 64"
    by (simp add: div_mult2_eq [symmetric])
  also have "\<dots> = a" unfolding q using assms(1) by (rule mix64)
  finally show "?cp div 262144 = a" .
qed

lemma low6_bound: "cont b \<Longrightarrow> low6 b < 64"
  by (auto simp: cont_def low6_def)

lemma low6_char: "cont b \<Longrightarrow> char_of (0x80 + low6 b) = b"
  by (auto simp: cont_def low6_def)

lemma encode_cp_one: "(of_char b :: nat) < 0x80 \<Longrightarrow> encode_cp (of_char b) = Some [b]"
  by (simp add: encode_cp_def)

lemma encode_cp_two:
  assumes n: "0xC2 \<le> (of_char b :: nat)" "(of_char b :: nat) < 0xE0" and c1: "cont c1"
  shows "encode_cp ((of_char b - 0xC0) * 64 + low6 c1) = Some [b, c1]"
proof -
  let ?a = "of_char b - 0xC0 :: nat"
  let ?cp = "?a * 64 + low6 c1"
  have d: "low6 c1 < 64" using c1 by (rule low6_bound)
  have a: "2 \<le> ?a" "?a < 32" using n by auto
  have lo: "0x80 \<le> ?cp" using a by simp
  have hi: "?cp < 0x800" using a d by simp
  have lead: "char_of (0xC0 + ?a) = b" using n by simp
  have "encode_cp ?cp = Some [char_of (0xC0 + ?cp div 64), char_of (0x80 + ?cp mod 64)]"
    using lo hi by (simp add: encode_cp_def)
  then show ?thesis
    by (simp only: mix64 [OF d] lead low6_char [OF c1])
qed

lemma encode_cp_three:
  assumes n: "0xE0 \<le> (of_char b :: nat)" "(of_char b :: nat) < 0xF0"
    and c: "cont c1" "cont c2"
    and lo: "0x800 \<le> (of_char b - 0xE0) * 4096 + low6 c1 * 64 + low6 c2"
    and sur: "\<not> (0xD800 \<le> (of_char b - 0xE0) * 4096 + low6 c1 * 64 + low6 c2
                \<and> (of_char b - 0xE0) * 4096 + low6 c1 * 64 + low6 c2 < 0xE000)"
  shows "encode_cp ((of_char b - 0xE0) * 4096 + low6 c1 * 64 + low6 c2) = Some [b, c1, c2]"
proof -
  let ?a = "of_char b - 0xE0 :: nat"
  let ?cp = "?a * 4096 + low6 c1 * 64 + low6 c2"
  have d: "low6 c1 < 64" "low6 c2 < 64" using c by (simp_all add: low6_bound)
  have a: "?a < 16" using n by auto
  have hi: "?cp < 0x10000" using a d by simp
  have lead: "char_of (0xE0 + ?a) = b" using n by simp
  have "encode_cp ?cp = Some [char_of (0xE0 + ?cp div 4096), char_of (0x80 + ?cp div 64 mod 64),
                              char_of (0x80 + ?cp mod 64)]"
    using lo sur hi by (simp add: encode_cp_def)
  then show ?thesis
    by (simp only: mix3 [OF d] lead low6_char [OF c(1)] low6_char [OF c(2)])
qed

lemma encode_cp_four:
  assumes n: "0xF0 \<le> (of_char b :: nat)" "(of_char b :: nat) < 0xF5"
    and c: "cont c1" "cont c2" "cont c3"
    and lo: "0x10000 \<le> (of_char b - 0xF0) * 262144 + low6 c1 * 4096 + low6 c2 * 64 + low6 c3"
    and hi: "(of_char b - 0xF0) * 262144 + low6 c1 * 4096 + low6 c2 * 64 + low6 c3 < 0x110000"
  shows "encode_cp ((of_char b - 0xF0) * 262144 + low6 c1 * 4096 + low6 c2 * 64 + low6 c3)
           = Some [b, c1, c2, c3]"
proof -
  let ?a = "of_char b - 0xF0 :: nat"
  let ?cp = "?a * 262144 + low6 c1 * 4096 + low6 c2 * 64 + low6 c3"
  have d: "low6 c1 < 64" "low6 c2 < 64" "low6 c3 < 64" using c by (simp_all add: low6_bound)
  have lead: "char_of (0xF0 + ?a) = b" using n by simp
  have "encode_cp ?cp = Some [char_of (0xF0 + ?cp div 262144),
                              char_of (0x80 + ?cp div 4096 mod 64),
                              char_of (0x80 + ?cp div 64 mod 64), char_of (0x80 + ?cp mod 64)]"
    using lo hi by (simp add: encode_cp_def)
  then show ?thesis
    by (simp only: mix4 [OF d] lead low6_char [OF c(1)] low6_char [OF c(2)] low6_char [OF c(3)])
qed

lemma decode_cp_encode_cp:
  assumes "decode_cp bs = Some (c, rest)"
  shows "\<exists>e. encode_cp c = Some e \<and> bs = e @ rest"
proof (cases bs)
  case Nil
  with assms show ?thesis by simp
next
  case (Cons b bs')
  let ?n = "of_char b :: nat"
  consider (one) "?n < 0x80" | (bad) "0x80 \<le> ?n" "?n < 0xC2" | (two) "0xC2 \<le> ?n" "?n < 0xE0"
    | (three) "0xE0 \<le> ?n" "?n < 0xF0" | (four) "0xF0 \<le> ?n" "?n < 0xF5" | (high) "0xF5 \<le> ?n"
    by linarith
  then show ?thesis
  proof cases
    case one
    with assms Cons show ?thesis by (auto simp: encode_cp_one)
  next
    case bad
    with assms Cons show ?thesis by simp
  next
    case two
    with assms Cons show ?thesis
      by (auto simp: encode_cp_two split: list.splits if_splits)
  next
    case three
    with assms Cons show ?thesis
      by (auto simp: Let_def encode_cp_three split: list.splits if_splits)
  next
    case four
    with assms Cons show ?thesis
      by (auto simp: Let_def encode_cp_four split: list.splits if_splits)
  next
    case high
    with assms Cons show ?thesis by simp
  qed
qed

lemma decode_encode: "decode bs = Some t \<Longrightarrow> encode t = Some bs"
proof (induction bs arbitrary: t rule: decode.induct)
  case (1 bs)
  show ?case
  proof (cases "bs = []")
    case True
    with "1.prems" show ?thesis by (simp add: decode.simps)
  next
    case False
    with "1.prems" obtain c rest t' where cp: "decode_cp bs = Some (c, rest)"
      and t': "decode rest = Some t'" and t: "t = c # t'"
      by (subst (asm) decode.simps) (auto split: option.splits)
    from decode_cp_encode_cp [OF cp] obtain e where "encode_cp c = Some e" "bs = e @ rest"
      by blast
    with "1.IH" [OF False cp refl t'] t show ?thesis by simp
  qed
qed

lemma dec_nat_digits: "c \<in> set (dec_nat n) \<Longrightarrow> is_digit c"
  by (induction n rule: dec_nat.induct) (subst (asm) dec_nat.simps, auto simp: is_digit_def split: if_splits)

lemma dec_nat_not_Nil: "dec_nat n \<noteq> []"
  by (subst dec_nat.simps) simp

lemma digit_run_digits:
  "\<forall>c\<in>set ds. is_digit c \<Longrightarrow>
   digit_run acc ds = Some (foldl (\<lambda>a c. 10 * a + (c - 48)) acc ds)"
  by (induction ds arbitrary: acc) simp_all

lemma foldl_dec_nat: "foldl (\<lambda>a c. 10 * a + (c - 48)) 0 (dec_nat n) = n"
  by (induction n rule: dec_nat.induct) (subst dec_nat.simps, simp)

lemma py_digits_dec_nat: "py_digits (dec_nat n) = Some n"
proof -
  obtain c cs where ds: "dec_nat n = c # cs"
    using dec_nat_not_Nil [of n] by (cases "dec_nat n") auto
  have dig: "\<forall>c\<in>set (dec_nat n). is_digit c" by (simp add: dec_nat_digits)
  then have "is_digit c" using ds by simp
  then have "py_digits (dec_nat n) = digit_run 0 (dec_nat n)"
    using ds by (simp add: py_digits_def)
  then show ?thesis using digit_run_digits [OF dig, of 0] by (simp add: foldl_dec_nat)
qed

lemma strip_line:
  assumes "s \<noteq> []" "\<not> sp (hd s)" "\<not> sp (last s)" "sp 13"
  shows "strip sp (s @ [13]) = s"
proof -
  obtain c cs where s: "s = c # cs" using assms(1) by (cases s) auto
  have front: "dropWhile sp (s @ [13]) = s @ [13]" using s assms(2) by simp
  obtain ys l where snoc: "s = ys @ [l]" using assms(1) by (cases s rule: rev_cases) auto
  then have "\<not> sp l" using assms(3) by simp
  then have "dropWhile sp (rev (s @ [13])) = rev s" using snoc assms(4) by simp
  with front show ?thesis by (simp add: strip_def)
qed

lemma dec_nat_hd: "is_digit (hd (dec_nat n))"
  using dec_nat_digits [of "hd (dec_nat n)" n] dec_nat_not_Nil [of n] by simp

lemma dec_nat_last: "is_digit (last (dec_nat n))"
  using dec_nat_digits [of "last (dec_nat n)" n] dec_nat_not_Nil [of n] by simp

lemma py_int_dec_nat:
  assumes "sp 13" "\<And>c. is_digit c \<Longrightarrow> \<not> sp c"
  shows "py_int sp (dec_nat n @ [13]) = Some (int n)"
proof -
  have "strip sp (dec_nat n @ [13]) = dec_nat n"
    using assms dec_nat_hd dec_nat_last dec_nat_not_Nil by (intro strip_line) auto
  moreover obtain c cs where ds: "dec_nat n = c # cs"
    using dec_nat_not_Nil [of n] by (cases "dec_nat n") auto
  moreover have "is_digit c" using dec_nat_hd [of n] ds by simp
  then have "c \<noteq> 45" "c \<noteq> 43" by (auto simp: is_digit_def)
  ultimately show ?thesis
    using py_digits_dec_nat [of n] by (simp add: py_int_def)
qed

lemma py_int_dec_int:
  assumes "sp 13" "\<And>c. is_digit c \<Longrightarrow> \<not> sp c" "\<not> sp 45"
  shows "py_int sp (dec_int i @ [13]) = Some i"
proof (cases "i < 0")
  case True
  have "strip sp ((45 # dec_nat (nat (- i))) @ [13]) = 45 # dec_nat (nat (- i))"
    using assms dec_nat_last dec_nat_not_Nil by (intro strip_line) auto
  with True show ?thesis
    using py_digits_dec_nat [of "nat (- i)"] by (simp add: py_int_def dec_int_def)
next
  case False
  then show ?thesis using py_int_dec_nat [of sp "nat i"] assms by (simp add: dec_int_def)
qed

lemma int_of_str_dec_int: "int_of_str (dec_int i @ [13]) = Some i"
  unfolding int_of_str_def
  by (rule py_int_dec_int) (auto simp: is_space_str_def is_digit_def)

lemma dec_nat_ascii: "c \<in> set (dec_nat n) \<Longrightarrow> c < 0x80"
  using dec_nat_digits [of c n] by (simp add: is_digit_def)

lemma dec_int_ascii: "c \<in> set (dec_int i) \<Longrightarrow> c < 0x80"
  using dec_nat_ascii by (auto simp: dec_int_def split: if_splits)

lemma of_char_char_of_ascii: "\<forall>c\<in>set s. c < 0x80 \<Longrightarrow> map of_char (map char_of s) = (s :: nat list)"
  by (induction s) simp_all

lemma int_of_bytes_dec_nat: "int_of_bytes (map char_of (dec_nat n) @ [CR]) = Some (int n)"
proof -
  have "map of_char (map char_of (dec_nat n) @ [CR]) = dec_nat n @ [13::nat]"
    using of_char_char_of_ascii [of "dec_nat n"] dec_nat_ascii by simp
  then show ?thesis
    unfolding int_of_bytes_def
    using py_int_dec_nat [of is_space_bytes n] by (simp add: is_space_bytes_def is_digit_def)
qed

lemma LF_notin_dec_nat: "LF \<notin> set (map char_of (dec_nat n))"
proof
  assume "LF \<in> set (map char_of (dec_nat n))"
  then obtain c where c: "c \<in> set (dec_nat n)" "LF = char_of c" by auto
  from c(1) have r: "48 \<le> c" "c \<le> 57" using dec_nat_digits [of c n] by (simp_all add: is_digit_def)
  from c(2) have "(of_char LF :: nat) = of_char (char_of c :: char)" by simp
  then have "10 = c mod 256" by simp
  with r show False by simp
qed

section \<open>One reply, branch by branch\<close>

lemma LF_notin_chars:
  "\<forall>c\<in>set s. c < 256 \<and> c \<noteq> 10 \<Longrightarrow> LF \<notin> set (map char_of (s :: nat list))"
proof
  assume a: "\<forall>c\<in>set s. c < 256 \<and> c \<noteq> 10" and "LF \<in> set (map char_of s)"
  then obtain c where c: "c \<in> set s" "LF = char_of c" by auto
  from c(2) have "(of_char LF :: nat) = of_char (char_of c :: char)" by simp
  then have "10 = c mod 256" by simp
  with a c(1) show False by auto
qed

lemma dec_int_chars: "c \<in> set (dec_int i) \<Longrightarrow> is_digit c \<or> c = 45"
  using dec_nat_digits by (auto simp: dec_int_def split: if_splits)

lemma decode_cp_append:
  "decode_cp a = Some (c, rs) \<Longrightarrow> decode_cp (a @ b) = Some (c, rs @ b)"
  by (cases a) (auto simp: Let_def split: if_splits list.splits)

lemma decode_append:
  "decode a = Some s \<Longrightarrow>
   decode (a @ b) = (case decode b of None \<Rightarrow> None | Some u \<Rightarrow> Some (s @ u))"
proof (induction a arbitrary: s rule: decode.induct)
  case (1 a)
  show ?case
  proof (cases "a = []")
    case True
    with "1.prems" show ?thesis by (auto simp: decode_Nil split: option.splits)
  next
    case False
    with "1.prems" obtain c rs s' where cp: "decode_cp a = Some (c, rs)"
      and s': "decode rs = Some s'" and s: "s = c # s'"
      by (subst (asm) decode.simps) (auto split: option.splits)
    have "decode (a @ b) = (case decode (rs @ b) of None \<Rightarrow> None | Some t \<Rightarrow> Some (c # t))"
      using False decode_cp_append [OF cp, of b] by (subst decode.simps) simp
    with "1.IH" [OF False cp refl s'] s show ?thesis by (simp split: option.splits)
  qed
qed

lemma read_tag:
  "concat rd = b # rest \<Longrightarrow> \<exists>rd1. read 1 rd = ([b], rd1) \<and> concat rd1 = rest"
  by (induction "1::nat" rd rule: read.induct) (auto split: if_splits)

lemma line_reply:
  assumes "concat rd = tag # line @ LF # rest" "LF \<notin> set line"
  shows "\<exists>rd1 rd2. read 1 rd = ([tag], rd1)
           \<and> line_loop rd1 [] = Some (line @ [LF], rd2) \<and> concat rd2 = rest"
proof -
  from read_tag [OF assms(1)] obtain rd1
    where rd1: "read 1 rd = ([tag], rd1)" "concat rd1 = line @ LF # rest" by blast
  from line_loop_returns [OF rd1(2) assms(2), of "[]"] rd1(1) show ?thesis by auto
qed

lemma reply_int_line:
  assumes "concat rd = CHR '':'' # line @ LF # rest" "LF \<notin> set line"
  shows "\<exists>rd'. reply rd =
            Some (case decode line of
                    None \<Rightarrow> Inl UnicodeDecodeError
                  | Some t \<Rightarrow> (case int_of_str t of
                                None \<Rightarrow> Inl ValueError
                              | Some i \<Rightarrow> Inr (PyInt i)), rd')
          \<and> concat rd' = rest"
  using line_reply [OF assms] by (auto simp: reply_def split: option.splits)

lemma reply_err_line:
  assumes "concat rd = CHR ''-'' # line @ LF # rest" "LF \<notin> set line"
  shows "\<exists>rd'. reply rd =
            Some (case decode line of
                    None \<Rightarrow> Inl UnicodeDecodeError
                  | Some t \<Rightarrow> Inl (Exception t), rd')
          \<and> concat rd' = rest"
  using line_reply [OF assms] by (auto simp: reply_def split: option.splits)

lemma reply_str_line:
  assumes "concat rd = CHR ''+'' # line @ LF # rest" "LF \<notin> set line"
  shows "\<exists>rd'. reply rd =
            Some (case decode line of
                    None \<Rightarrow> Inl UnicodeDecodeError
                  | Some t \<Rightarrow> Inr (PyStr t), rd')
          \<and> concat rd' = rest"
  using line_reply [OF assms] by (auto simp: reply_def split: option.splits)

lemma reply_bulk:
  assumes cat: "concat rd = CHR ''$'' # map char_of (dec_nat n) @ crlf @ body @ rest"
    and len: "length body = n + 2"
  shows "\<exists>rd'. reply rd =
            Some (case decode (drop_last2 body) of
                    None \<Rightarrow> Inl UnicodeDecodeError
                  | Some t \<Rightarrow> Inr (PyStr t), rd')
          \<and> concat rd' = rest"
proof -
  let ?line = "map char_of (dec_nat n) @ [CR]"
  have cat': "concat rd = CHR ''$'' # ?line @ LF # body @ rest"
    using cat by (simp add: crlf_def)
  have "LF \<notin> set ?line" using LF_notin_dec_nat [of n] by simp
  from line_reply [OF cat' this] obtain rd1 rd2
    where rd: "read 1 rd = (''$'', rd1)" "line_loop rd1 [] = Some (?line @ [LF], rd2)"
      "concat rd2 = body @ rest"
    by blast
  have "int n + 2 \<le> int (length ([] :: bytes)) + int (length (concat rd2))"
    using rd(3) len by simp
  from data_loop_returns [OF this] obtain rd3
    where rd3: "data_loop (int n + 2) rd2 [] = Some (body, rd3)" "concat rd3 = rest"
    using rd(3) len by auto
  have hdr: "int_of_bytes (butlast (map char_of (dec_nat n) @ [CR, LF])) = Some (int n)"
    using int_of_bytes_dec_nat [of n] by (simp add: butlast_append)
  show ?thesis
    using rd rd3 by (simp add: reply_def hdr split: option.splits)
qed

lemma reply_unknown:
  assumes "concat rd = tag # rest" "tag \<notin> {CHR '':'', CHR ''-'', CHR ''$'', CHR ''+''}"
  shows "\<exists>e msg rd'. reply rd = Some (Inl e, rd') \<and> rest = msg @ concat rd' \<and> length msg \<le> 100"
proof -
  from read_tag [OF assms(1)] obtain rd1
    where rd1: "read 1 rd = ([tag], rd1)" "concat rd1 = rest" by blast
  obtain msg rd2 where rd2: "read 100 rd1 = (msg, rd2)" by (cases "read 100 rd1")
  from read_concat [OF rd2] read_length [OF rd2] rd1 rd2 assms(2) show ?thesis
    by (auto simp: reply_def split: option.splits)
qed

section \<open>The claims about the reply decoder\<close>

lemma decode_snoc_CR: "decode a = Some s \<Longrightarrow> decode (a @ [CR]) = Some (s @ [13])"
proof -
  assume a: "decode a = Some s"
  have "decode [CR] = Some [13]" by (simp add: decode_ascii_Cons decode_Nil)
  then show ?thesis using decode_append [OF a, of "[CR]"] by simp
qed

text \<open>
  Claim C4. For every integer \<open>i\<close>, decoding the reply made of the tag \<^verbatim>\<open>:\<close>, the signed
  decimal text of \<open>i\<close> and \<^verbatim>\<open>\r\n\<close> returns the integer \<open>i\<close>, however the bytes are
  fragmented, and leaves the reader at the byte after the reply. (\<^verbatim>\<open>int\<close> strips the
  carriage return that \<^verbatim>\<open>result[:-1]\<close> keeps.)
\<close>

theorem reply_integer:
  assumes "concat rd = '':'' @ map char_of (dec_int i) @ crlf @ rest"
  shows "\<exists>rd'. reply rd = Some (Inr (PyInt i), rd') \<and> concat rd' = rest"
proof -
  let ?line = "map char_of (dec_int i) @ [CR]"
  have cat: "concat rd = CHR '':'' # ?line @ LF # rest"
    using assms by (simp add: crlf_def)
  have "\<forall>c\<in>set (dec_int i @ [13]). c < 256 \<and> c \<noteq> 10"
    by (fastforce simp: is_digit_def dest: dec_int_chars)
  from LF_notin_chars [OF this] have nolf: "LF \<notin> set ?line" by simp
  have "decode (map char_of (dec_int i)) = Some (dec_int i)"
    using dec_int_ascii by (intro decode_ascii) auto
  then have "decode ?line = Some (dec_int i @ [13])" by (rule decode_snoc_CR)
  with reply_int_line [OF cat nolf] show ?thesis
    by (simp add: int_of_str_dec_int)
qed

theorem reply_integer_witness:
  "concat ['':-'', ''12'', crlf @ ''+OK'' @ crlf]
     = '':'' @ map char_of (dec_int (- 12)) @ crlf @ (''+OK'' @ crlf)
   \<and> (\<exists>rd'. reply ['':-'', ''12'', crlf @ ''+OK'' @ crlf] = Some (Inr (PyInt (- 12)), rd')
            \<and> concat rd' = ''+OK'' @ crlf)"
proof -
  have h: "concat ['':-'', ''12'', crlf @ ''+OK'' @ crlf]
             = '':'' @ map char_of (dec_int (- 12)) @ crlf @ (''+OK'' @ crlf)"
    by code_simp
  from h reply_integer [OF h] show ?thesis by simp
qed

text \<open>
  Claim C2, as stated: decoding \<^verbatim>\<open>$<n>\r\n\<close>, \<open>n\<close> arbitrary bytes and \<^verbatim>\<open>\r\n\<close> yields
  exactly those bytes. It fails for the one-byte payload \<^verbatim>\<open>0xFF\<close>: the branch ends in
  \<^verbatim>\<open>result[:-2].decode()\<close>, which raises \<^verbatim>\<open>UnicodeDecodeError\<close>.
\<close>

theorem reply_bulk_invalid_utf8:
  "reply [''$1'' @ crlf @ [CHR 0xFF] @ crlf] = Some (Inl UnicodeDecodeError, [])"
  by code_simp

text \<open>
  Claim C2, amended. For every payload of \<open>n\<close> bytes (it may contain \<^verbatim>\<open>\r\<close> and
  \<^verbatim>\<open>\n\<close>), decoding \<^verbatim>\<open>$<n>\r\n\<close>, the payload and \<^verbatim>\<open>\r\n\<close> consumes exactly these
  bytes, however they are fragmented; when the payload is valid UTF-8 the result is the
  \<^verbatim>\<open>str\<close> whose UTF-8 encoding is exactly the payload, and otherwise
  \<^verbatim>\<open>UnicodeDecodeError\<close> is raised.
\<close>

theorem reply_bulk_text:
  assumes "concat rd = ''$'' @ map char_of (dec_nat (length payload)) @ crlf @ payload @ crlf @ rest"
  shows "\<exists>rd'. reply rd = Some (case decode payload of
                                  None \<Rightarrow> Inl UnicodeDecodeError
                                | Some t \<Rightarrow> Inr (PyStr t), rd')
               \<and> concat rd' = rest
               \<and> (\<forall>t. decode payload = Some t \<longrightarrow> encode t = Some payload)"
proof -
  have cat: "concat rd = CHR ''$'' # map char_of (dec_nat (length payload)) @ crlf
                           @ (payload @ crlf) @ rest"
    using assms by simp
  have len: "length (payload @ crlf) = length payload + 2" by (simp add: crlf_def)
  have "drop_last2 (payload @ crlf) = payload" by (simp add: drop_last2_def crlf_def)
  with reply_bulk [OF cat len] decode_encode [of payload] show ?thesis by simp
qed

theorem reply_bulk_text_witness:
  "concat [''$5'', crlf @ ''a'', [CR, LF, CHR 0xC3], [CHR 0xA9] @ crlf @ '':1'' @ crlf]
       = ''$'' @ map char_of (dec_nat (length [CHR ''a'', CR, LF, CHR 0xC3, CHR 0xA9])) @ crlf
           @ [CHR ''a'', CR, LF, CHR 0xC3, CHR 0xA9] @ crlf @ ('':1'' @ crlf)
   \<and> decode [CHR ''a'', CR, LF, CHR 0xC3, CHR 0xA9] = Some [97, 13, 10, 233]
   \<and> (\<exists>rd'. reply [''$5'', crlf @ ''a'', [CR, LF, CHR 0xC3], [CHR 0xA9] @ crlf @ '':1'' @ crlf]
               = Some (Inr (PyStr [97, 13, 10, 233]), rd')
            \<and> concat rd' = '':1'' @ crlf)
   \<and> encode [97, 13, 10, 233] = Some [CHR ''a'', CR, LF, CHR 0xC3, CHR 0xA9]"
proof -
  have h1: "decode [CHR ''a'', CR, LF, CHR 0xC3, CHR 0xA9] = Some [97, 13, 10, 233]"
    by code_simp
  have h2: "concat [''$5'', crlf @ ''a'', [CR, LF, CHR 0xC3], [CHR 0xA9] @ crlf @ '':1'' @ crlf]
       = ''$'' @ map char_of (dec_nat (length [CHR ''a'', CR, LF, CHR 0xC3, CHR 0xA9])) @ crlf
           @ [CHR ''a'', CR, LF, CHR 0xC3, CHR 0xA9] @ crlf @ ('':1'' @ crlf)"
    by code_simp
  from reply_bulk_text [OF h2] obtain rd'
    where res: "reply [''$5'', crlf @ ''a'', [CR, LF, CHR 0xC3], [CHR 0xA9] @ crlf @ '':1'' @ crlf]
                  = Some (case decode [CHR ''a'', CR, LF, CHR 0xC3, CHR 0xA9] of
                            None \<Rightarrow> Inl UnicodeDecodeError
                          | Some t \<Rightarrow> Inr (PyStr t), rd')"
      and pos: "concat rd' = '':1'' @ crlf"
      and enc: "\<forall>t. decode [CHR ''a'', CR, LF, CHR 0xC3, CHR 0xA9] = Some t
                  \<longrightarrow> encode t = Some [CHR ''a'', CR, LF, CHR 0xC3, CHR 0xA9]"
    by blast
  from res have "reply [''$5'', crlf @ ''a'', [CR, LF, CHR 0xC3], [CHR 0xA9] @ crlf @ '':1'' @ crlf]
                   = Some (Inr (PyStr [97, 13, 10, 233]), rd')"
    by (simp only: h1 option.case)
  moreover from enc h1 have "encode [97, 13, 10, 233] = Some [CHR ''a'', CR, LF, CHR 0xC3, CHR 0xA9]"
    by blast
  ultimately show ?thesis using h1 h2 pos by blast
qed

text \<open>
  Claim C3: decoding \<^verbatim>\<open>$-1\r\n\<close> yields the null bulk string, not the empty string. The
  code has no case for the length \<open>-1\<close>: \<^verbatim>\<open>data_length\<close> is \<open>1\<close>, so one byte of
  whatever follows is read and dropped, and the empty \<^verbatim>\<open>str\<close> is returned. Here the byte
  lost is the tag of the next reply.
\<close>

theorem reply_null_bulk_overreads:
  "reply [''$-1'' @ crlf, ''+OK'' @ crlf] = Some (Inr (PyStr []), [''OK'' @ crlf])"
  by code_simp

text \<open>
  Claim C5: a simple-string reply decodes to the bytes before the \<^verbatim>\<open>\r\n\<close> terminator.
  The code drops one byte (\<^verbatim>\<open>result[:-1]\<close>) where the terminator has two, so the carriage
  return stays in the text: \<^verbatim>\<open>+OK\r\n\<close> decodes to \<^verbatim>\<open>"OK\r"\<close>.
\<close>

theorem reply_simple_string_keeps_cr:
  "reply [''+OK'' @ crlf] = Some (Inr (PyStr (asc ''OK'' @ [13])), [])"
  by code_simp

text \<open>
  Claim C6, as stated: an error reply decodes to a typed error carrying exactly the message,
  distinguishable from a protocol failure. It fails: an error reply and an unknown tag
  raise the same \<^verbatim>\<open>Exception\<close>, here with the very same text.
\<close>

theorem error_reply_same_as_unknown_tag:
  "reply [''-Unkown tag: b'' @ [CHR 0x27] @ ''?'' @ [CHR 0x27] @ '', msg: X'' @ crlf]
     = Some (Inl (Exception (asc ''Unkown tag: b'' @ [39] @ asc ''?'' @ [39]
                              @ asc '', msg: X'' @ [13])), [])
   \<and> reply [''?X'' @ [CR]]
     = Some (Inl (Exception (asc ''Unkown tag: b'' @ [39] @ asc ''?'' @ [39]
                              @ asc '', msg: X'' @ [13])), [])"
  by code_simp

text \<open>
  Claim C6, amended. For every error reply \<^verbatim>\<open>-<message>\r\n\<close> whose message is valid UTF-8
  without a line feed, decoding raises the generic \<^verbatim>\<open>Exception\<close> (the kind an unknown tag
  raises too), whose text begins with the message; exactly the bytes of the reply are
  consumed, so the reader stands at the next reply and the connection remains usable.
\<close>

theorem reply_error_line:
  assumes "decode msg = Some t" and "LF \<notin> set msg"
    and "concat rd = ''-'' @ msg @ crlf @ rest"
  shows "\<exists>m rd'. reply rd = Some (Inl (Exception m), rd') \<and> take (length t) m = t
                 \<and> concat rd' = rest"
proof -
  have cat: "concat rd = CHR ''-'' # (msg @ [CR]) @ LF # rest"
    using assms(3) by (simp add: crlf_def)
  have nolf: "LF \<notin> set (msg @ [CR])" using assms(2) by simp
  have "decode (msg @ [CR]) = Some (t @ [13])"
    using assms(1) by (rule decode_snoc_CR)
  with reply_err_line [OF cat nolf] show ?thesis by auto
qed

theorem reply_error_line_witness:
  "decode ''ERR some message'' = Some (asc ''ERR some message'')
   \<and> LF \<notin> set ''ERR some message''
   \<and> concat [''-ERR some'', '' message'' @ crlf @ ''+OK'' @ crlf]
       = ''-'' @ ''ERR some message'' @ crlf @ (''+OK'' @ crlf)
   \<and> (\<exists>m rd'. reply [''-ERR some'', '' message'' @ crlf @ ''+OK'' @ crlf]
                 = Some (Inl (Exception m), rd')
              \<and> take (length (asc ''ERR some message'')) m = asc ''ERR some message''
              \<and> concat rd' = ''+OK'' @ crlf)"
proof -
  have h1: "decode ''ERR some message'' = Some (asc ''ERR some message'')" by code_simp
  have h2: "LF \<notin> set ''ERR some message''" by simp
  have h3: "concat [''-ERR some'', '' message'' @ crlf @ ''+OK'' @ crlf]
              = ''-'' @ ''ERR some message'' @ crlf @ (''+OK'' @ crlf)"
    by simp
  from h1 h2 h3 reply_error_line [OF h1 h2 h3] show ?thesis by blast
qed

text \<open>
  Claim C8: when the stream is closed before the line terminator, or before the requested
  byte count is delivered, decoding terminates with a decode error. Neither loop tests for
  the empty read that signals the end of the stream, so \<^verbatim>\<open>_reply\<close> never returns: on
  \<^verbatim>\<open>:12\<close> and on \<^verbatim>\<open>$5\r\nab\<close> followed by the end of the stream.
\<close>

theorem reply_never_returns_on_closed_stream:
  "reply ['':12''] = None \<and> reply [''$5'' @ crlf @ ''ab''] = None"
proof
  have "line_loop [''12''] [] = None" by (rule line_loop_diverges) simp
  then show "reply ['':12''] = None" by (simp add: reply_def)
next
  have "line_loop [''5'' @ crlf @ ''ab''] [] = Some (''5'' @ crlf, [''ab''])"
    by (simp add: crlf_def line_loop_byte)
  moreover have "int_of_bytes (butlast (''5'' @ crlf)) = Some 5" by code_simp
  moreover have "data_loop 7 [''ab''] [] = None" by (rule data_loop_diverges) simp
  ultimately show "reply [''$5'' @ crlf @ ''ab''] = None"
    by (simp add: reply_def crlf_def)
qed

section \<open>What the command methods write\<close>

lemma transmit_sent: "encode text = Some bs \<Longrightarrow> transmit text c = sent bs c"
  by (cases "reply (r c)") (auto simp: transmit_def write_bytes_def drain_def)

lemma encode_literal:
  "\<forall>b\<in>set bs. (of_char b :: nat) < 0x80 \<Longrightarrow> encode (map of_char bs) = Some bs"
  by (induction bs) (simp_all add: encode_cp_def)

lemma encode_dec_nat: "encode (dec_nat n) = Some (map char_of (dec_nat n))"
  using dec_nat_ascii by (intro encode_ascii) auto

lemma encode_app:
  "encode s = Some a \<Longrightarrow> encode t = Some b \<Longrightarrow> encode (s @ t) = Some (a @ b)"
  by (simp add: encode_append)

lemma encode_crlf: "encode (map of_char crlf) = Some crlf"
  by (rule encode_literal) (simp add: crlf_def)

lemma encode_bulk_arg:
  assumes "encode arg = Some ab"
  shows "encode (asc ''$'' @ dec_nat (length arg) @ map of_char crlf @ arg @ map of_char crlf)
           = Some (bulk_arg arg ab)"
proof -
  have "encode (asc ''$'') = Some ''$''" unfolding asc_def by (rule encode_literal) simp
  then show ?thesis
    unfolding bulk_arg_def
    by (intro encode_app encode_dec_nat encode_crlf assms)
qed

lemma send_one:
  assumes "encode cmd = Some cb" "encode key = Some kb"
  shows "send [cmd, key] c = sent (''*2'' @ crlf @ bulk_arg cmd cb @ bulk_arg key kb) c"
proof -
  let ?A = "asc ''$'' @ dec_nat (length cmd) @ map of_char crlf @ cmd @ map of_char crlf"
  let ?B = "asc ''$'' @ dec_nat (length key) @ map of_char crlf @ key @ map of_char crlf"
  have hd: "encode (asc ''*'' @ dec_nat 2 @ map of_char crlf) = Some (''*2'' @ crlf)"
    by code_simp
  have "encode ((asc ''*'' @ dec_nat 2 @ map of_char crlf) @ ?A @ ?B)
          = Some ((''*2'' @ crlf) @ bulk_arg cmd cb @ bulk_arg key kb)"
    by (intro encode_app hd encode_bulk_arg assms)
  moreover have "asc ''*'' @ dec_nat (length [cmd, key]) @ map of_char crlf
                   @ resp_args [cmd, key]
                 = (asc ''*'' @ dec_nat 2 @ map of_char crlf) @ ?A @ ?B"
    by (simp add: resp_args_def numeral_2_eq_2)
  ultimately have "encode (asc ''*'' @ dec_nat (length [cmd, key]) @ map of_char crlf
                             @ resp_args [cmd, key])
                     = Some (''*2'' @ crlf @ bulk_arg cmd cb @ bulk_arg key kb)"
    by simp
  then show ?thesis unfolding send_def by (rule transmit_sent)
qed

section \<open>The claims about the command methods and the stream position\<close>

text \<open>
  Claim C1: \<^verbatim>\<open>send\<close> writes each argument as \<^verbatim>\<open>$<byte-length>\r\n<bytes>\r\n\<close>, the
  prefix being the byte count of the argument, not its character count. The code formats
  \<^verbatim>\<open>len(arg)\<close> of the \<^verbatim>\<open>str\<close> before encoding: for the one-character argument
  \<^verbatim>\<open>U+00E9\<close>, two bytes in UTF-8, it writes the prefix \<^verbatim>\<open>$1\<close>.
\<close>

theorem send_length_prefix_counts_characters:
  "encode [233] = Some [CHR 0xC3, CHR 0xA9]
   \<and> map_option (w \<circ> snd) (send [[233]] \<lparr>r = [''+OK'' @ crlf], w = []\<rparr>)
       = Some (''*1'' @ crlf @ ''$1'' @ crlf @ [CHR 0xC3, CHR 0xA9] @ crlf)"
  by code_simp

text \<open>
  Claim C7, as stated: the decoder consumes precisely the bytes of the one reply it accepts
  or rejects. It fails on an unknown tag: the fallthrough branch reads up to 100 more bytes
  for its message, here the line end and the whole of the next reply.
\<close>

theorem reply_unknown_tag_swallows_next:
  "reply [''?'' @ crlf @ ''+OK'' @ crlf]
     = Some (Inl (Exception (asc ''Unkown tag: b'' @ [39] @ asc ''?'' @ [39]
                              @ asc '', msg: '' @ [13, 10] @ asc ''+OK'' @ [13, 10])), [])"
  by code_simp

text \<open>
  Claim C7, amended. For a reply tagged \<^verbatim>\<open>:\<close>, \<^verbatim>\<open>-\<close> or \<^verbatim>\<open>+\<close> (the bytes up to
  the first line feed) and for a bulk reply \<^verbatim>\<open>$<n>\r\n\<close> with \<open>n \<ge> 0\<close> followed by
  \<open>n + 2\<close> bytes, the decoder returns, accepting or rejecting, having consumed precisely
  the bytes of that reply, however they are fragmented: the reader stands at the first
  byte after it. For any other tag it consumes the tag and, of what follows, a prefix of at
  most 100 bytes.
\<close>

theorem reply_consumption:
  "(tag \<in> {CHR '':'', CHR ''-'', CHR ''+''} \<and> LF \<notin> set line
      \<and> concat rd1 = tag # line @ LF # rest1
      \<longrightarrow> (\<exists>res rd'. reply rd1 = Some (res, rd') \<and> concat rd' = rest1))
   \<and> (length body = n + 2
      \<and> concat rd2 = ''$'' @ map char_of (dec_nat n) @ crlf @ body @ rest2
      \<longrightarrow> (\<exists>res rd'. reply rd2 = Some (res, rd') \<and> concat rd' = rest2))
   \<and> (other \<notin> {CHR '':'', CHR ''-'', CHR ''$'', CHR ''+''} \<and> concat rd3 = other # rest3
      \<longrightarrow> (\<exists>e msg rd'. reply rd3 = Some (Inl e, rd') \<and> rest3 = msg @ concat rd'
                         \<and> length msg \<le> 100))"
proof (intro conjI impI)
  assume a: "tag \<in> {CHR '':'', CHR ''-'', CHR ''+''} \<and> LF \<notin> set line
               \<and> concat rd1 = tag # line @ LF # rest1"
  then consider "tag = CHR '':''" | "tag = CHR ''-''" | "tag = CHR ''+''" by auto
  then show "\<exists>res rd'. reply rd1 = Some (res, rd') \<and> concat rd' = rest1"
  proof cases
    case 1
    with a reply_int_line [of rd1 line rest1] show ?thesis by auto
  next
    case 2
    with a reply_err_line [of rd1 line rest1] show ?thesis by auto
  next
    case 3
    with a reply_str_line [of rd1 line rest1] show ?thesis by auto
  qed
next
  assume "length body = n + 2
            \<and> concat rd2 = ''$'' @ map char_of (dec_nat n) @ crlf @ body @ rest2"
  with reply_bulk [of rd2 n body rest2]
  show "\<exists>res rd'. reply rd2 = Some (res, rd') \<and> concat rd' = rest2" by auto
next
  assume "other \<notin> {CHR '':'', CHR ''-'', CHR ''$'', CHR ''+''} \<and> concat rd3 = other # rest3"
  with reply_unknown [of rd3 other rest3]
  show "\<exists>e msg rd'. reply rd3 = Some (Inl e, rd') \<and> rest3 = msg @ concat rd'
                      \<and> length msg \<le> 100"
    by auto
qed

theorem reply_consumption_witness:
  "(CHR ''+'' \<in> {CHR '':'', CHR ''-'', CHR ''+''} \<and> LF \<notin> set (''OK'' @ [CR])
      \<and> concat [''+O'', ''K'' @ crlf @ '':1'' @ crlf]
          = CHR ''+'' # (''OK'' @ [CR]) @ LF # ('':1'' @ crlf))
   \<and> (length (''abc'' @ crlf) = 3 + 2
      \<and> concat [''$3'' @ crlf @ ''a'', ''bc'' @ crlf @ ''+OK'' @ crlf]
          = ''$'' @ map char_of (dec_nat 3) @ crlf @ (''abc'' @ crlf) @ (''+OK'' @ crlf))
   \<and> (CHR ''?'' \<notin> {CHR '':'', CHR ''-'', CHR ''$'', CHR ''+''}
      \<and> concat [''?'' @ crlf, ''+OK'' @ crlf] = CHR ''?'' # (crlf @ ''+OK'' @ crlf))
   \<and> (\<exists>res rd'. reply [''+O'', ''K'' @ crlf @ '':1'' @ crlf] = Some (res, rd')
                  \<and> concat rd' = '':1'' @ crlf)
   \<and> (\<exists>res rd'. reply [''$3'' @ crlf @ ''a'', ''bc'' @ crlf @ ''+OK'' @ crlf] = Some (res, rd')
                  \<and> concat rd' = ''+OK'' @ crlf)
   \<and> (\<exists>e msg rd'. reply [''?'' @ crlf, ''+OK'' @ crlf] = Some (Inl e, rd')
                    \<and> crlf @ ''+OK'' @ crlf = msg @ concat rd' \<and> length msg \<le> 100)"
proof -
  have a1: "CHR ''+'' \<in> {CHR '':'', CHR ''-'', CHR ''+''} \<and> LF \<notin> set (''OK'' @ [CR])
      \<and> concat [''+O'', ''K'' @ crlf @ '':1'' @ crlf]
          = CHR ''+'' # (''OK'' @ [CR]) @ LF # ('':1'' @ crlf)"
    by (simp add: crlf_def)
  have a2: "length (''abc'' @ crlf) = 3 + 2
      \<and> concat [''$3'' @ crlf @ ''a'', ''bc'' @ crlf @ ''+OK'' @ crlf]
          = ''$'' @ map char_of (dec_nat 3) @ crlf @ (''abc'' @ crlf) @ (''+OK'' @ crlf)"
    by code_simp
  have a3: "CHR ''?'' \<notin> {CHR '':'', CHR ''-'', CHR ''$'', CHR ''+''}
      \<and> concat [''?'' @ crlf, ''+OK'' @ crlf] = CHR ''?'' # (crlf @ ''+OK'' @ crlf)"
    by (simp add: crlf_def)
  from a1 a2 a3
    reply_consumption [of "CHR ''+''" "''OK'' @ [CR]" "[''+O'', ''K'' @ crlf @ '':1'' @ crlf]"
      "'':1'' @ crlf" "''abc'' @ crlf" 3
      "[''$3'' @ crlf @ ''a'', ''bc'' @ crlf @ ''+OK'' @ crlf]" "''+OK'' @ crlf"
      "CHR ''?''" "[''?'' @ crlf, ''+OK'' @ crlf]" "crlf @ ''+OK'' @ crlf"]
  show ?thesis by blast
qed

text \<open>
  Claim C9, as stated: \<^verbatim>\<open>get(k)\<close> writes the same bytes as \<^verbatim>\<open>send("GET", k)\<close>. It
  fails: \<^verbatim>\<open>get\<close> writes the inline command \<^verbatim>\<open>GET k\r\n\<close>, \<^verbatim>\<open>send\<close> the multi-bulk
  form.
\<close>

theorem get_differs_from_send:
  "map_option (w \<circ> snd) (get (asc ''k'') \<lparr>r = [''$1'' @ crlf @ ''v'' @ crlf], w = []\<rparr>)
     = Some (''GET k'' @ crlf)
   \<and> map_option (w \<circ> snd)
        (send [asc ''GET'', asc ''k''] \<lparr>r = [''$1'' @ crlf @ ''v'' @ crlf], w = []\<rparr>)
     = Some (''*2'' @ crlf @ ''$3'' @ crlf @ ''GET'' @ crlf @ ''$1'' @ crlf @ ''k'' @ crlf)"
  by code_simp

text \<open>
  Claim C9, amended. \<^verbatim>\<open>get\<close>, \<^verbatim>\<open>set\<close> and \<^verbatim>\<open>incr\<close> do not go through \<^verbatim>\<open>send\<close>:
  for every key and value that can be encoded, each writes the inline command
  (\<^verbatim>\<open>GET <key>\r\n\<close>, \<^verbatim>\<open>SET <key> <value>\r\n\<close>, \<^verbatim>\<open>INCR <key>\r\n\<close>), drains, and
  decodes one reply; \<^verbatim>\<open>send("GET", key)\<close> writes the multi-bulk form and decodes one
  reply in the same way, so the two return the same outcome and leave the same reader,
  and differ only in the bytes written.
\<close>

theorem wrappers_write_inline_commands:
  assumes "encode key = Some kb" and "encode val = Some vb"
  shows "get key c = sent (''GET '' @ kb @ crlf) c
       \<and> set_cmd key val c = sent (''SET '' @ kb @ '' '' @ vb @ crlf) c
       \<and> incr key c = sent (''INCR '' @ kb @ crlf) c
       \<and> send [asc ''GET'', key] c
           = sent (''*2'' @ crlf @ bulk_arg (asc ''GET'') ''GET'' @ bulk_arg key kb) c"
proof (intro conjI)
  have "encode (asc ''GET '') = Some ''GET ''" unfolding asc_def by (rule encode_literal) simp
  then have "encode (asc ''GET '' @ key @ map of_char crlf) = Some (''GET '' @ kb @ crlf)"
    by (intro encode_app assms encode_crlf)
  then show "get key c = sent (''GET '' @ kb @ crlf) c"
    unfolding get_def by (rule transmit_sent)
next
  have "encode (asc ''SET '') = Some ''SET ''" unfolding asc_def by (rule encode_literal) simp
  moreover have "encode (asc '' '') = Some '' ''" unfolding asc_def by (rule encode_literal) simp
  ultimately have "encode (asc ''SET '' @ key @ asc '' '' @ val @ map of_char crlf)
                     = Some (''SET '' @ kb @ '' '' @ vb @ crlf)"
    by (intro encode_app assms encode_crlf)
  then show "set_cmd key val c = sent (''SET '' @ kb @ '' '' @ vb @ crlf) c"
    unfolding set_cmd_def by (rule transmit_sent)
next
  have "encode (asc ''INCR '') = Some ''INCR ''" unfolding asc_def by (rule encode_literal) simp
  then have "encode (asc ''INCR '' @ key @ map of_char crlf) = Some (''INCR '' @ kb @ crlf)"
    by (intro encode_app assms encode_crlf)
  then show "incr key c = sent (''INCR '' @ kb @ crlf) c"
    unfolding incr_def by (rule transmit_sent)
next
  have "encode (asc ''GET'') = Some ''GET''" unfolding asc_def by (rule encode_literal) simp
  from send_one [OF this assms(1)]
  show "send [asc ''GET'', key] c
          = sent (''*2'' @ crlf @ bulk_arg (asc ''GET'') ''GET'' @ bulk_arg key kb) c" .
qed

theorem wrappers_write_inline_commands_witness:
  "encode (asc ''k'') = Some ''k'' \<and> encode (asc ''v'') = Some ''v''
   \<and> get (asc ''k'') \<lparr>r = [''+OK'' @ crlf], w = []\<rparr>
       = sent (''GET '' @ ''k'' @ crlf) \<lparr>r = [''+OK'' @ crlf], w = []\<rparr>
   \<and> set_cmd (asc ''k'') (asc ''v'') \<lparr>r = [''+OK'' @ crlf], w = []\<rparr>
       = sent (''SET '' @ ''k'' @ '' '' @ ''v'' @ crlf) \<lparr>r = [''+OK'' @ crlf], w = []\<rparr>
   \<and> incr (asc ''k'') \<lparr>r = [''+OK'' @ crlf], w = []\<rparr>
       = sent (''INCR '' @ ''k'' @ crlf) \<lparr>r = [''+OK'' @ crlf], w = []\<rparr>
   \<and> send [asc ''GET'', asc ''k''] \<lparr>r = [''+OK'' @ crlf], w = []\<rparr>
       = sent (''*2'' @ crlf @ bulk_arg (asc ''GET'') ''GET'' @ bulk_arg (asc ''k'') ''k'')
           \<lparr>r = [''+OK'' @ crlf], w = []\<rparr>"
proof -
  have h1: "encode (asc ''k'') = Some ''k''" by code_simp
  have h2: "encode (asc ''v'') = Some ''v''" by code_simp
  from h1 h2 wrappers_write_inline_commands [OF h1 h2, of "\<lparr>r = [''+OK'' @ crlf], w = []\<rparr>"]
  show ?thesis by blast
qed

text \<open>
  Claim C10, as stated: for the empty argument list \<^verbatim>\<open>send\<close> fails and produces no wire
  request. It fails: the request \<^verbatim>\<open>*0\r\n\<close> is written.
\<close>

theorem send_no_arguments_writes:
  "map_option (w \<circ> snd) (send [] \<lparr>r = [''+OK'' @ crlf], w = []\<rparr>) = Some (''*0'' @ crlf)"
  by code_simp

text \<open>
  Claim C10, amended. \<^verbatim>\<open>send\<close> does not check its argument list: called with no
  argument it writes the request \<^verbatim>\<open>*0\r\n\<close>, drains and decodes one reply, as for any
  other command.
\<close>

theorem send_no_arguments:
  "send [] c = sent (''*0'' @ crlf) c"
proof -
  have "encode (asc ''*'' @ dec_nat (length ([] :: str list)) @ map of_char crlf @ resp_args [])
          = Some (''*0'' @ crlf)"
    by code_simp
  then show ?thesis unfolding send_def by (rule transmit_sent)
qed

end
